theory Spec2Isabelle
  imports Complex_Main "HOL-Library.Log_Nat" "HOL-Library.Word"
begin

section \<open>JavaScript numbers\<close>

text \<open>
  Every \<^verbatim>\<open>number\<close> of the component is an IEEE 754 binary64 value. A finite one is
  carried as the rational it denotes; the two infinities and NaN are separate values.
  The sign of zero is not modelled: the only operation of the component that could
  observe it is a division by zero, and the divisor there (\<^verbatim>\<open>file.size\<close>) is never
  negative zero.
\<close>

datatype number = Num rat | Infinity | NegInfinity | NaN

text \<open>\<open>ilog2 x\<close> is the binary exponent of a positive rational: \<open>2 powi ilog2 x \<le> x < 2 powi (ilog2 x + 1)\<close>.\<close>

definition ilog2 :: "rat \<Rightarrow> int" where
  "ilog2 x = (if 1 \<le> x then bitlen \<lfloor>x\<rfloor> - 1 else - bitlen (\<lceil>1 / x\<rceil> - 1))"

definition round_half_even :: "rat \<Rightarrow> int" where
  "round_half_even r =
     (let f = \<lfloor>r\<rfloor>; d = r - of_int f
      in if d < 1 / 2 then f else if 1 / 2 < d then f + 1 else if even f then f else f + 1)"

text \<open>
  Rounding of a positive rational to binary64, round to nearest, ties to even: 53
  significant bits, the exponent of the last place not below \<open>-1074\<close> (subnormals),
  \<open>None\<close> when the rounded value does not fit (overflow).
\<close>

definition fl_pos :: "rat \<Rightarrow> rat option" where
  "fl_pos x =
     (let e = max (ilog2 x - 52) (- 1074);
          y = of_int (round_half_even (x / 2 powi e)) * 2 powi e
      in if 2 powi 1024 \<le> y then None else Some y)"

text \<open>
  Rounding of any rational: zero stays zero, a negative number is rounded as its
  absolute value is, and a value too large for binary64 becomes an infinity. Every
  arithmetic operator below returns the exact result rounded this way.
\<close>

definition fl :: "rat \<Rightarrow> number" where
  "fl x =
     (if x = 0 then Num 0
      else if 0 < x then (case fl_pos x of None \<Rightarrow> Infinity | Some y \<Rightarrow> Num y)
      else (case fl_pos (- x) of None \<Rightarrow> NegInfinity | Some y \<Rightarrow> Num (- y)))"

definition inf_signed :: "rat \<Rightarrow> number" where
  "inf_signed s = (if s = 0 then NaN else if 0 < s then Infinity else NegInfinity)"

text \<open>The operators \<^verbatim>\<open>*\<close>, \<^verbatim>\<open>/\<close>, \<^verbatim>\<open>-\<close> and \<^verbatim>\<open>>\<close> on numbers.\<close>

fun js_mul :: "number \<Rightarrow> number \<Rightarrow> number" where
  "js_mul NaN _ = NaN"
| "js_mul _ NaN = NaN"
| "js_mul (Num a) (Num b) = fl (a * b)"
| "js_mul (Num a) Infinity = inf_signed a"
| "js_mul (Num a) NegInfinity = inf_signed (- a)"
| "js_mul Infinity (Num b) = inf_signed b"
| "js_mul NegInfinity (Num b) = inf_signed (- b)"
| "js_mul Infinity Infinity = Infinity"
| "js_mul Infinity NegInfinity = NegInfinity"
| "js_mul NegInfinity Infinity = NegInfinity"
| "js_mul NegInfinity NegInfinity = Infinity"

fun js_div :: "number \<Rightarrow> number \<Rightarrow> number" where
  "js_div NaN _ = NaN"
| "js_div _ NaN = NaN"
| "js_div (Num a) (Num b) = (if b = 0 then inf_signed a else fl (a / b))"
| "js_div (Num a) Infinity = Num 0"
| "js_div (Num a) NegInfinity = Num 0"
| "js_div Infinity (Num b) = (if 0 \<le> b then Infinity else NegInfinity)"
| "js_div NegInfinity (Num b) = (if 0 \<le> b then NegInfinity else Infinity)"
| "js_div Infinity Infinity = NaN"
| "js_div Infinity NegInfinity = NaN"
| "js_div NegInfinity Infinity = NaN"
| "js_div NegInfinity NegInfinity = NaN"

fun js_sub :: "number \<Rightarrow> number \<Rightarrow> number" where
  "js_sub NaN _ = NaN"
| "js_sub _ NaN = NaN"
| "js_sub (Num a) (Num b) = fl (a - b)"
| "js_sub (Num a) Infinity = NegInfinity"
| "js_sub (Num a) NegInfinity = Infinity"
| "js_sub Infinity (Num b) = Infinity"
| "js_sub NegInfinity (Num b) = NegInfinity"
| "js_sub Infinity Infinity = NaN"
| "js_sub Infinity NegInfinity = Infinity"
| "js_sub NegInfinity Infinity = NegInfinity"
| "js_sub NegInfinity NegInfinity = NaN"

fun js_gt :: "number \<Rightarrow> number \<Rightarrow> bool" where
  "js_gt NaN _ = False"
| "js_gt _ NaN = False"
| "js_gt (Num a) (Num b) = (b < a)"
| "js_gt (Num a) Infinity = False"
| "js_gt (Num a) NegInfinity = True"
| "js_gt Infinity (Num b) = True"
| "js_gt Infinity Infinity = False"
| "js_gt Infinity NegInfinity = True"
| "js_gt NegInfinity _ = False"

text \<open>
  \<^verbatim>\<open>Math.round\<close>: the integer nearest to the argument, a tie going to the larger
  one. It does not round its result again: the nearest integer of a binary64 value is a
  binary64 value.
\<close>

fun Math_round :: "number \<Rightarrow> number" where
  "Math_round (Num x) = Num (of_int \<lfloor>x + 1 / 2\<rfloor>)"
| "Math_round Infinity = Infinity"
| "Math_round NegInfinity = NegInfinity"
| "Math_round NaN = NaN"

text \<open>\<^verbatim>\<open>s.length\<close>, the number of code units of a string.\<close>

definition js_length :: "string \<Rightarrow> number" where
  "js_length s = Num (of_nat (length s))"

section \<open>The component \<^verbatim>\<open>ImageCompressor\<close>\<close>

subsection \<open>Data\<close>

record CompressedImage =
  originalSize :: number
  compressedSize :: number
  compressedDataUrl :: string
  name :: string

text \<open>What the component reads of a \<^verbatim>\<open>File\<close>: its \<^verbatim>\<open>size\<close> and its \<^verbatim>\<open>name\<close>.\<close>

record File =
  file_size :: number
  file_name :: string

text \<open>
  A promise as the handler sees it when it awaits: fulfilled with a value, rejected with
  an error, or never settled.
\<close>

datatype 'a promise = Resolved 'a | Rejected string | Pending

text \<open>The canvas: its two dimensions and the one image drawn into it.\<close>

record Canvas =
  canvas_width :: number
  canvas_height :: number
  canvas_drawn :: "(string \<times> number \<times> number \<times> number \<times> number) option"

text \<open>
  The browser, as far as the component calls it.
  \<^item> \<open>readAsDataURL\<close>: the string handed to \<^verbatim>\<open>reader.onload\<close>; \<open>None\<close> when the
    read fails, so that the \<^verbatim>\<open>load\<close> event never fires.
  \<^item> \<open>decode\<close>: \<^verbatim>\<open>img.width\<close> and \<^verbatim>\<open>img.height\<close> (each an \<^verbatim>\<open>unsigned long\<close>)
    when \<^verbatim>\<open>img.onload\<close> fires; \<open>None\<close> when the source does not decode, so that
    only the \<^verbatim>\<open>error\<close> event fires, for which the component has no handler.
  \<^item> \<open>toDataURL\<close>: the encoder, given the canvas, the type and the quality.
\<close>

record platform =
  readAsDataURL :: "File \<Rightarrow> string option"
  decode :: "string \<Rightarrow> (32 word \<times> 32 word) option"
  toDataURL :: "Canvas \<Rightarrow> string \<Rightarrow> rat \<Rightarrow> string"

subsection \<open>\<^verbatim>\<open>compressImage\<close>\<close>

text \<open>
  The computation of the new dimensions (lines 29 to 44): \<^verbatim>\<open>height\<close> is computed
  from the old \<^verbatim>\<open>width\<close> before \<^verbatim>\<open>width\<close> is overwritten, and symmetrically.
\<close>

definition resize :: "number \<Rightarrow> number \<Rightarrow> number \<times> number" where
  "resize img_width img_height =
     (let maxWidth = Num 1200; maxHeight = Num 1200;
          width = img_width; height = img_height
      in if js_gt width height then
           (if js_gt width maxWidth
            then (maxWidth, Math_round (js_div (js_mul height maxWidth) width))
            else (width, height))
         else
           (if js_gt height maxHeight
            then (Math_round (js_div (js_mul width maxHeight) height), maxHeight)
            else (width, height)))"

definition dimension :: "32 word \<Rightarrow> number" where
  "dimension w = Num (of_nat (unat w))"

text \<open>
  The promise is created with a \<^verbatim>\<open>resolve\<close> only, and \<^verbatim>\<open>resolve\<close> is called in one
  place, at the end of \<^verbatim>\<open>img.onload\<close>, itself set inside \<^verbatim>\<open>reader.onload\<close>. When
  either event does not fire, nothing settles the promise.
\<close>

definition compressImage :: "platform \<Rightarrow> File \<Rightarrow> CompressedImage promise" where
  "compressImage env file =
     (case readAsDataURL env file of
        None \<Rightarrow> Pending
      | Some src \<Rightarrow>
          (case decode env src of
             None \<Rightarrow> Pending
           | Some (w, h) \<Rightarrow>
               (let (width, height) = resize (dimension w) (dimension h);
                    canvas = \<lparr>canvas_width = width, canvas_height = height,
                              canvas_drawn = Some (src, Num 0, Num 0, width, height)\<rparr>;
                    url = toDataURL env canvas ''image/jpeg'' (7 / 10)
                in Resolved
                     \<lparr>originalSize = file_size file,
                      compressedSize = Math_round (js_div (js_mul (js_length url) (Num 3)) (Num 4)),
                      compressedDataUrl = url,
                      name = file_name file\<rparr>)))"

subsection \<open>\<^verbatim>\<open>handleFileChange\<close>\<close>

text \<open>\<^verbatim>\<open>event.target.files\<close> is a list of files or \<^verbatim>\<open>null\<close>.\<close>

record change_event =
  files :: "File list option"

text \<open>\<^verbatim>\<open>event.target.files?.[0]\<close>\<close>

definition first_file :: "change_event \<Rightarrow> File option" where
  "first_file ev = (case files ev of None \<Rightarrow> None | Some [] \<Rightarrow> None | Some (f # _) \<Rightarrow> Some f)"

text \<open>
  The state of the component, the two \<^verbatim>\<open>useState\<close> cells, and what the page shows
  beside it: the lines written by \<^verbatim>\<open>console.error\<close> and the downloads started.
\<close>

record state =
  image :: "CompressedImage option"
  loading :: bool
  console :: "string list"
  body :: "(string \<times> string) list"
  downloads :: "(string \<times> string) list"

text \<open>
  How a call of the handler ends: it returns, or it stays suspended at its
  \<^verbatim>\<open>await\<close> on a promise that nothing settles.
\<close>

datatype ending = Returned | Suspended

definition handleFileChange :: "platform \<Rightarrow> change_event \<Rightarrow> state \<Rightarrow> ending \<times> state" where
  "handleFileChange env ev st =
     (case first_file ev of
        None \<Rightarrow> (Returned, st)
      | Some file \<Rightarrow>
          (let st1 = st\<lparr>loading := True\<rparr>
           in case compressImage env file of
                Resolved compressed \<Rightarrow>
                  (Returned, st1\<lparr>image := Some compressed, loading := False\<rparr>)
              | Rejected err \<Rightarrow>
                  (Returned,
                   st1\<lparr>console := console st1 @ [''Error compressing image: '' @ err],
                       loading := False\<rparr>)
              | Pending \<Rightarrow> (Suspended, st1)))"

subsection \<open>\<^verbatim>\<open>handleDownload\<close>\<close>

text \<open>
  A link is a pair of its \<^verbatim>\<open>href\<close> and its \<^verbatim>\<open>download\<close> attribute. The link is
  appended to the body, clicked, which starts a download under the name in
  \<^verbatim>\<open>download\<close>, and removed again.
\<close>

definition handleDownload :: "state \<Rightarrow> state" where
  "handleDownload st =
     (case image st of
        None \<Rightarrow> st
      | Some img \<Rightarrow>
          (let link = (compressedDataUrl img, ''compressed-'' @ name img);
               st1 = st\<lparr>body := body st @ [link]\<rparr>;
               st2 = st1\<lparr>downloads := downloads st1 @ [link]\<rparr>
           in st2\<lparr>body := butlast (body st2)\<rparr>))"

subsection \<open>The reduction shown\<close>

text \<open>Line 145: \<^verbatim>\<open>Math.round((1 - image.compressedSize / image.originalSize) * 100)\<close>\<close>

definition reduction :: "CompressedImage \<Rightarrow> number" where
  "reduction img =
     Math_round (js_mul (js_sub (Num 1) (js_div (compressedSize img) (originalSize img))) (Num 100))"

subsection \<open>The component as mounted\<close>

text \<open>\<^verbatim>\<open>useState(null)\<close> and \<^verbatim>\<open>useState(false)\<close>; nothing logged, nothing downloaded.\<close>

definition initial_state :: state where
  "initial_state = \<lparr>image = None, loading = False, console = [], body = [], downloads = []\<rparr>"

subsection \<open>Constants of the error analysis\<close>

text \<open>
  The relative error of one rounding is at most \<open>eps\<close>; a result that falls among the
  subnormal numbers is off by at most \<open>tiny\<close>.
\<close>

definition eps :: rat where "eps = 2 powi (- 53)"
definition tiny :: rat where "tiny = 2 powi (- 1075)"

section \<open>Worked examples\<close>

text \<open>
  A browser in which the file \<^verbatim>\<open>photo.png\<close> decodes to an image of 2400 by 1200 pixels
  and no other file decodes, and whose encoder returns a data URL of 31 characters.
\<close>

definition example_platform :: platform where
  "example_platform =
     \<lparr>readAsDataURL = (\<lambda>f. Some (''data:'' @ file_name f)),
      decode = (\<lambda>src. if src = ''data:photo.png'' then Some (2400, 1200) else None),
      toDataURL = (\<lambda>c t q. ''data:image/jpeg;base64,/9j/2Q=='')\<rparr>"

definition photo :: File where
  "photo = \<lparr>file_size = Num 1000000, file_name = ''photo.png''\<rparr>"

definition not_an_image :: File where
  "not_an_image = \<lparr>file_size = Num 12, file_name = ''notes.txt''\<rparr>"

definition compressed_photo :: CompressedImage where
  "compressed_photo =
     \<lparr>originalSize = Num 1000000, compressedSize = Num 23,
      compressedDataUrl = ''data:image/jpeg;base64,/9j/2Q=='', name = ''photo.png''\<rparr>"

text \<open>
  A browser whose encoder returns a data URL of 22667 characters, the prefix and 22644
  characters of base64, for a file of 40000 bytes.
\<close>

definition tie_platform :: platform where
  "tie_platform =
     \<lparr>readAsDataURL = (\<lambda>f. Some (''data:'' @ file_name f)),
      decode = (\<lambda>src. Some (600, 400)),
      toDataURL = (\<lambda>c t q. ''data:image/jpeg;base64,'' @ replicate 22644 CHR ''A'')\<rparr>"

definition tie_file :: File where
  "tie_file = \<lparr>file_size = Num 40000, file_name = ''photo.png''\<rparr>"

definition tie_image :: CompressedImage where
  "tie_image =
     \<lparr>originalSize = Num 40000, compressedSize = Num 17000,
      compressedDataUrl = ''data:image/jpeg;base64,'' @ replicate 22644 CHR ''A'',
      name = ''photo.png''\<rparr>"

section \<open>Rounding to binary64\<close>

lemma ilog2_bounds:
  assumes "0 < x"
  shows "2 powi ilog2 x \<le> x" and "x < 2 powi (ilog2 x + 1)"
proof -
  have "2 powi ilog2 x \<le> x \<and> x < 2 powi (ilog2 x + 1)"
  proof (cases "1 \<le> x")
    case True
    define n where "n = \<lfloor>x\<rfloor>"
    have n1: "1 \<le> n" using True by (simp add: n_def le_floor_iff)
    then have n0: "0 < n" by simp
    have bl: "1 \<le> bitlen n" using n0 bitlen_eq_zero_iff [of n] bitlen_nonneg [of n] by linarith
    from bitlen_bounds [OF n0]
    have lo: "2 ^ nat (bitlen n - 1) \<le> n" and hi: "n < 2 ^ nat (bitlen n)" by simp_all
    have il: "ilog2 x = bitlen n - 1" using True by (simp add: ilog2_def n_def)
    have "(2::rat) powi (bitlen n - 1) = 2 ^ nat (bitlen n - 1)"
      using bl by (simp add: power_int_nonneg_exp)
    also have "\<dots> = of_int (2 ^ nat (bitlen n - 1))" by simp
    also have "\<dots> \<le> of_int n" using lo by (simp only: of_int_le_iff)
    also have "\<dots> \<le> x" by (simp add: n_def)
    finally have A: "2 powi ilog2 x \<le> x" by (simp add: il)
    have "x < of_int (n + 1)" unfolding n_def by linarith
    also have "\<dots> \<le> of_int (2 ^ nat (bitlen n))" using hi by (simp only: of_int_le_iff)
    also have "\<dots> = (2::rat) powi (bitlen n)" using bl by (simp add: power_int_nonneg_exp)
    finally have B: "x < 2 powi (ilog2 x + 1)" by (simp add: il)
    from A B show ?thesis ..
  next
    case False
    define y where "y = 1 / x"
    have y1: "1 < y" using False assms by (simp add: y_def)
    define m where "m = \<lceil>y\<rceil> - 1"
    have m1: "1 \<le> m" using y1 by (simp add: m_def less_ceiling_iff)
    then have m0: "0 < m" by simp
    have my: "of_int m < y" unfolding m_def by linarith
    have ym: "y \<le> of_int (m + 1)" unfolding m_def by linarith
    have bl: "1 \<le> bitlen m" using m0 bitlen_eq_zero_iff [of m] bitlen_nonneg [of m] by linarith
    from bitlen_bounds [OF m0]
    have lo: "2 ^ nat (bitlen m - 1) \<le> m" and hi: "m < 2 ^ nat (bitlen m)" by simp_all
    have il: "ilog2 x = - bitlen m" using False by (simp add: ilog2_def m_def y_def)
    have xy: "x = 1 / y" using assms by (simp add: y_def)
    have "y \<le> of_int (2 ^ nat (bitlen m))"
      using ym hi by (meson of_int_le_iff order_trans zless_imp_add1_zle)
    then have "y \<le> 2 ^ nat (bitlen m)" by simp
    then have "1 / 2 ^ nat (bitlen m) \<le> 1 / y" using y1 by (simp add: frac_le)
    moreover have "(2::rat) powi (- bitlen m) = 1 / 2 ^ nat (bitlen m)"
      using bl by (simp add: power_int_minus_divide power_int_nonneg_exp)
    ultimately have "2 powi (- bitlen m) \<le> x" by (simp add: xy)
    then have A: "2 powi ilog2 x \<le> x" by (simp only: il)
    have "(2::rat) ^ nat (bitlen m - 1) \<le> of_int m" using lo by simp
    with my have "(2::rat) ^ nat (bitlen m - 1) < y" by linarith
    then have "1 / y < 1 / 2 ^ nat (bitlen m - 1)" by (simp add: frac_less2)
    moreover have "(2::rat) powi (- bitlen m + 1) = 1 / 2 ^ nat (bitlen m - 1)"
    proof -
      have "- bitlen m + 1 = - (bitlen m - 1)" by simp
      then show ?thesis using bl by (simp only: power_int_minus_divide) (simp add: power_int_nonneg_exp)
    qed
    ultimately have "x < 2 powi (- bitlen m + 1)" by (simp add: xy)
    then have B: "x < 2 powi (ilog2 x + 1)" by (simp only: il)
    from A B show ?thesis ..
  qed
  then show "2 powi ilog2 x \<le> x" and "x < 2 powi (ilog2 x + 1)" by simp_all
qed

lemma round_half_even_err: "\<bar>of_int (round_half_even r) - r\<bar> \<le> 1 / 2"
proof -
  have "of_int \<lfloor>r\<rfloor> \<le> r" "r < of_int \<lfloor>r\<rfloor> + 1" by linarith+
  then show ?thesis by (auto simp: round_half_even_def Let_def)
qed

lemma round_half_even_of_int: "round_half_even (of_int n) = n"
  by (simp add: round_half_even_def)

lemma p2_add: "(2::rat) powi (a + b) = 2 powi a * 2 powi b"
  by (simp add: power_int_add)

lemma p2_mono: "a \<le> b \<Longrightarrow> (2::rat) powi a \<le> 2 powi b"
  by (rule power_int_increasing) simp_all

lemma p2_less_exp: "(2::rat) powi a < 2 powi b \<Longrightarrow> a < b"
  using p2_mono [of b a] by (cases "a < b") auto

lemma p2_pos: "0 < (2::rat) powi a"
  by simp

lemma fl_pos_approx:
  assumes "0 < x"
  defines "e \<equiv> max (ilog2 x - 52) (- 1074)"
  defines "y \<equiv> of_int (round_half_even (x / 2 powi e)) * 2 powi e"
  shows "\<bar>y - x\<bar> \<le> eps * x + tiny"
proof -
  have "\<bar>of_int (round_half_even (x / 2 powi e)) - x / 2 powi e\<bar> \<le> 1 / 2"
    by (rule round_half_even_err)
  then have "\<bar>of_int (round_half_even (x / 2 powi e)) - x / 2 powi e\<bar> * 2 powi e \<le> 1 / 2 * 2 powi e"
    by (rule mult_right_mono) simp
  moreover have "\<bar>of_int (round_half_even (x / 2 powi e)) - x / 2 powi e\<bar> * 2 powi e = \<bar>y - x\<bar>"
  proof -
    have "\<bar>of_int (round_half_even (x / 2 powi e)) - x / 2 powi e\<bar> * 2 powi e
        = \<bar>(of_int (round_half_even (x / 2 powi e)) - x / 2 powi e) * 2 powi e\<bar>"
      by (simp add: abs_mult)
    also have "(of_int (round_half_even (x / 2 powi e)) - x / 2 powi e) * 2 powi e = y - x"
      by (simp add: y_def left_diff_distrib)
    finally show ?thesis .
  qed
  ultimately have half: "\<bar>y - x\<bar> \<le> 1 / 2 * 2 powi e" by simp
  have "1 / 2 * (2::rat) powi e \<le> eps * x + tiny"
  proof (cases "- 1074 \<le> ilog2 x - 52")
    case True
    then have "e = ilog2 x + (- 52)" by (simp add: e_def)
    then have "(2::rat) powi e = 2 powi ilog2 x * 2 powi (- 52)" by (simp only: p2_add)
    also have "\<dots> \<le> x * 2 powi (- 52)"
      using ilog2_bounds(1) [OF assms(1)] by (rule mult_right_mono) simp
    finally have "1 / 2 * 2 powi e \<le> x * (1 / 2 * 2 powi (- 52))" by simp
    also have "1 / 2 * (2::rat) powi (- 52) = 2 powi (- 53)"
      using p2_add [of "- 1" "- 52"] by simp
    finally have "1 / 2 * 2 powi e \<le> eps * x" by (simp add: eps_def mult.commute)
    moreover have "0 \<le> tiny" by (simp add: tiny_def)
    ultimately show ?thesis by linarith
  next
    case False
    then have "e = - 1074" by (simp add: e_def)
    moreover have "1 / 2 * (2::rat) powi (- 1074) = 2 powi (- 1075)"
      using p2_add [of "- 1" "- 1074"] by simp
    ultimately have "1 / 2 * (2::rat) powi e = tiny" by (simp add: tiny_def)
    moreover have "0 \<le> eps * x" using assms(1) by (simp add: eps_def)
    ultimately show ?thesis by linarith
  qed
  with half show ?thesis by linarith
qed

lemma eps_le_1: "eps \<le> 1" and eps_pos: "0 < eps"
  using p2_mono [of "- 53" 0] by (simp_all add: eps_def)

lemma tiny_le_1: "tiny \<le> 1" and tiny_pos: "0 < tiny"
  using p2_mono [of "- 1075" 0] by (simp_all add: tiny_def)

lemma p2_66: "(2::rat) ^ 66 \<le> 2 powi 1024"
proof -
  have "(2::rat) ^ 66 = 2 powi 66" by simp
  also have "\<dots> \<le> 2 powi 1024" by (rule p2_mono) simp
  finally show ?thesis .
qed

lemma fl_pos_err:
  assumes "0 < x" and "x \<le> 2 ^ 64"
  shows "\<exists>y. fl_pos x = Some y \<and> \<bar>y - x\<bar> \<le> eps * x + tiny"
proof -
  define y :: rat where "y = of_int (round_half_even (x / 2 powi (max (ilog2 x - 52) (- 1074))))
                        * 2 powi (max (ilog2 x - 52) (- 1074))"
  have err: "\<bar>y - x\<bar> \<le> eps * x + tiny"
    unfolding y_def by (rule fl_pos_approx [OF assms(1)])
  have "eps * x \<le> 1 * x" using eps_le_1 assms(1) by (intro mult_right_mono) simp_all
  with err tiny_le_1 assms(2) have "y \<le> 2 ^ 64 + 2 ^ 64 + 1" by linarith
  also have "\<dots> < (2::rat) ^ 66" by simp
  finally have "y < 2 powi 1024" using p2_66 by linarith
  then have "fl_pos x = Some y"
    by (simp add: fl_pos_def Let_def y_def)
  with err show ?thesis by blast
qed

lemma fl_err:
  assumes "\<bar>x\<bar> \<le> 2 ^ 64"
  shows "\<exists>y. fl x = Num y \<and> \<bar>y - x\<bar> \<le> eps * \<bar>x\<bar> + tiny"
proof -
  consider "x = 0" | "0 < x" | "x < 0" by linarith
  then show ?thesis
  proof cases
    case 1
    then show ?thesis using tiny_pos by (simp add: fl_def)
  next
    case 2
    with assms have "x \<le> 2 ^ 64" by simp
    from fl_pos_err [OF 2 this] obtain y where "fl_pos x = Some y" "\<bar>y - x\<bar> \<le> eps * x + tiny"
      by blast
    with 2 show ?thesis by (simp add: fl_def)
  next
    case 3
    then have p: "0 < - x" by simp
    from assms 3 have "- x \<le> 2 ^ 64" by simp
    from fl_pos_err [OF p this] obtain y where y: "fl_pos (- x) = Some y" "\<bar>y - (- x)\<bar> \<le> eps * (- x) + tiny"
      by blast
    from y(2) have "\<bar>(- y) - x\<bar> \<le> eps * \<bar>x\<bar> + tiny" using 3 by (simp add: abs_if split: if_splits)
    with 3 y(1) show ?thesis by (simp add: fl_def)
  qed
qed

lemma fl_pos_exact:
  assumes "0 < m" and "m < 2 ^ 53" and "- 1074 \<le> k" and "k \<le> 0"
  shows "fl_pos (of_int m * 2 powi k) = Some (of_int m * 2 powi k)"
proof -
  define x :: rat where "x = of_int m * 2 powi k"
  define e where "e = max (ilog2 x - 52) (- 1074)"
  have x0: "0 < x" using assms(1) by (simp add: x_def)
  have "of_int m < (2::rat) ^ 53" using assms(2) by (metis of_int_less_iff of_int_numeral of_int_power)
  then have "x < 2 ^ 53 * 2 powi k" unfolding x_def by (intro mult_strict_right_mono) simp_all
  also have "\<dots> = 2 powi (53 + k)" by (simp add: p2_add)
  finally have xlt: "x < 2 powi (53 + k)" .
  with ilog2_bounds(1) [OF x0] have "(2::rat) powi ilog2 x < 2 powi (53 + k)" by linarith
  then have "ilog2 x < 53 + k" by (rule p2_less_exp)
  with assms(3) have ek: "e \<le> k" by (simp add: e_def)
  have "(2::rat) powi k = 2 powi (k - e) * 2 powi e"
    using p2_add [of "k - e" e] by simp
  moreover have "(2::rat) powi (k - e) = of_int (2 ^ nat (k - e))"
    using ek by (simp add: power_int_nonneg_exp)
  ultimately have xe: "x = of_int (m * 2 ^ nat (k - e)) * 2 powi e"
    by (simp add: x_def)
  then have "x / 2 powi e = of_int (m * 2 ^ nat (k - e))" by simp
  then have "round_half_even (x / 2 powi e) = m * 2 ^ nat (k - e)"
    by (simp only: round_half_even_of_int)
  then have y: "of_int (round_half_even (x / 2 powi e)) * 2 powi e = x" using xe by simp
  have "x < 2 powi 1024"
  proof -
    have "(2::rat) powi (53 + k) \<le> 2 powi 1024" using assms(4) by (intro p2_mono) simp
    with xlt show ?thesis by linarith
  qed
  then have "fl_pos x = Some x"
    using y by (simp add: fl_pos_def Let_def e_def [symmetric])
  then show ?thesis by (simp only: x_def)
qed

lemma fl_exact:
  assumes "\<bar>m\<bar> < 2 ^ 53" and "- 1074 \<le> k" and "k \<le> 0"
  shows "fl (of_int m * 2 powi k) = Num (of_int m * 2 powi k)"
proof -
  consider "m = 0" | "0 < m" | "m < 0" by linarith
  then show ?thesis
  proof cases
    case 1
    then show ?thesis by (simp add: fl_def)
  next
    case 2
    with assms(1) have "m < 2 ^ 53" by simp
    from fl_pos_exact [OF 2 this assms(2,3)] 2 show ?thesis
      by (simp add: fl_def)
  next
    case 3
    then have p: "0 < - m" by simp
    from assms(1) 3 have "- m < 2 ^ 53" by simp
    from fl_pos_exact [OF p this assms(2,3)]
    have "fl_pos (- (of_int m * 2 powi k)) = Some (- (of_int m * 2 powi k))" by simp
    moreover have "of_int m * (2::rat) powi k < 0" using 3 by (simp add: mult_neg_pos)
    ultimately show ?thesis by (simp add: fl_def)
  qed
qed

lemma fl_int: "\<bar>m\<bar> < 2 ^ 53 \<Longrightarrow> fl (of_int m) = Num (of_int m)"
  using fl_exact [of m 0] by simp

lemma fl_nat: "n < 2 ^ 53 \<Longrightarrow> fl (of_nat n) = Num (of_nat n)"
  using fl_int [of "int n"] by simp

text \<open>
  Evaluation at a given input: once the binary exponent is known, the rounded value is
  the rounded significand at that exponent.
\<close>

lemma ilog2_unique:
  assumes "2 powi k \<le> x" and "x < 2 powi (k + 1)"
  shows "ilog2 x = k"
proof -
  have "(0::rat) < 2 powi k" by simp
  with assms(1) have x0: "0 < x" by linarith
  from ilog2_bounds [OF x0] assms
  have "(2::rat) powi k < 2 powi (ilog2 x + 1)" and "(2::rat) powi ilog2 x < 2 powi (k + 1)"
    by linarith+
  then have "k < ilog2 x + 1" and "ilog2 x < k + 1" by (simp_all only: p2_less_exp)
  then show ?thesis by simp
qed

lemma round_half_even_mono: "r \<le> of_int n \<Longrightarrow> round_half_even r \<le> n"
proof -
  assume a: "r \<le> of_int n"
  have b: "\<lfloor>r\<rfloor> \<le> n" using floor_mono [OF a] by simp
  show ?thesis
  proof (cases "\<lfloor>r\<rfloor> = n")
    case True
    then have "r = of_int n" using a by (metis floor_less_iff less_le not_less order_refl)
    then show ?thesis by (simp add: round_half_even_of_int)
  next
    case False
    with b have "\<lfloor>r\<rfloor> + 1 \<le> n" by simp
    then show ?thesis using b by (simp add: round_half_even_def Let_def)
  qed
qed

lemma fl_eval:
  assumes "2 powi k \<le> x" and "x < 2 powi (k + 1)" and "- 1022 \<le> k" and "k < 1023"
  shows "fl x = Num (of_int (round_half_even (x / 2 powi (k - 52))) * 2 powi (k - 52))"
proof -
  have "(0::rat) < 2 powi k" by simp
  with assms(1) have x0: "0 < x" by linarith
  have il: "ilog2 x = k" using assms(1,2) by (rule ilog2_unique)
  have e: "max (ilog2 x - 52) (- 1074) = k - 52" using assms(3) by (simp add: il)
  have pk: "(2::rat) powi (k + 1) = of_int (2 ^ 53) * 2 powi (k - 52)"
  proof -
    have "(2::rat) powi (k + 1) = 2 powi (53 + (k - 52))"
      by (rule arg_cong [where f = "\<lambda>i. 2 powi i"]) simp
    also have "\<dots> = 2 powi 53 * 2 powi (k - 52)" by (rule p2_add)
    also have "(2::rat) powi 53 = of_int (2 ^ 53)" by simp
    finally show ?thesis .
  qed
  have "x / 2 powi (k - 52) \<le> 2 powi (k + 1) / 2 powi (k - 52)"
    using assms(2) by (simp add: divide_right_mono)
  also have "\<dots> = of_int (2 ^ 53)" by (simp only: pk) simp
  finally have "x / 2 powi (k - 52) \<le> of_int (2 ^ 53)" .
  then have "round_half_even (x / 2 powi (k - 52)) \<le> 2 ^ 53" by (rule round_half_even_mono)
  then have "(of_int (round_half_even (x / 2 powi (k - 52))) :: rat) \<le> of_int (2 ^ 53)"
    by (simp only: of_int_le_iff)
  then have "of_int (round_half_even (x / 2 powi (k - 52))) * 2 powi (k - 52)
             \<le> of_int (2 ^ 53) * (2::rat) powi (k - 52)"
    by (rule mult_right_mono) simp
  also have "\<dots> = 2 powi (k + 1)" by (simp only: pk)
  also have "\<dots> < 2 powi 1024" using assms(4) by (intro power_int_strict_increasing) simp_all
  finally have "\<not> (2::rat) powi 1024 \<le> of_int (round_half_even (x / 2 powi (k - 52))) * 2 powi (k - 52)"
    by (simp only: not_le)
  then have "fl_pos x = Some (of_int (round_half_even (x / 2 powi (k - 52))) * 2 powi (k - 52))"
    unfolding fl_pos_def Let_def e by (simp only: if_False)
  with x0 show ?thesis by (simp add: fl_def)
qed

lemma eps_num: "eps = 1 / 2 ^ 53"
  by (simp add: eps_def power_int_minus_divide)

lemma tiny_le_eps: "tiny \<le> eps"
  unfolding tiny_def eps_def by (rule p2_mono) simp

lemma floor_rat_numeral: "\<lfloor>numeral a / numeral b :: rat\<rfloor> = numeral a div numeral b"
  by (metis floor_divide_of_int_eq of_int_numeral)

section \<open>The arithmetic of the component is exact where it has to be\<close>

lemma floor_near:
  fixes y :: rat and n r d :: int
  assumes "0 < r" and "r < d" and "\<bar>y - (of_int n + of_int r / of_int d - 1 / 2)\<bar> < 1 / of_int d"
  shows "\<lfloor>y + 1 / 2\<rfloor> = n"
proof -
  have d0: "(0::rat) < of_int d" using assms(1,2) by simp
  have "(1::rat) \<le> of_int r" using assms(1) by simp
  then have lo: "1 / of_int d \<le> (of_int r / of_int d :: rat)" using d0 by (simp add: divide_right_mono)
  have "(of_int r :: rat) \<le> of_int d - 1" using assms(2) by (metis of_int_1 of_int_diff of_int_le_iff zle_diff1_eq)
  then have "(of_int r / of_int d :: rat) \<le> (of_int d - 1) / of_int d" using d0 by (simp add: divide_right_mono)
  also have "\<dots> = 1 - 1 / of_int d" using d0 by (simp add: diff_divide_distrib)
  finally have hi: "(of_int r / of_int d :: rat) \<le> 1 - 1 / of_int d" .
  from assms(3) lo hi have "of_int n \<le> y + 1 / 2" and "y + 1 / 2 < of_int n + 1"
    by (simp_all add: abs_less_iff)
  then show ?thesis by (simp add: floor_unique)
qed

lemma Math_round_div:
  fixes a b :: nat
  assumes "0 < b" and "b \<le> 2 ^ 32" and "a \<le> 1200 * b"
  shows "Math_round (js_div (Num (of_nat a)) (Num (of_nat b)))
         = Num (of_int (round (of_nat a / of_nat b :: rat)))"
proof -
  define x :: rat where "x = of_nat a / of_nat b"
  define N :: int where "N = 2 * int a + int b"
  define D :: int where "D = 2 * int b"
  define n where "n = N div D"
  define r where "r = N mod D"
  have b0: "(0::rat) < of_nat b" using assms(1) by simp
  have D0: "0 < D" using assms(1) by (simp add: D_def)
  have x0: "0 \<le> x" by (simp add: x_def)
  have "(of_nat a :: rat) \<le> of_nat (1200 * b)" using assms(3) by (simp only: of_nat_le_iff)
  then have x1200: "x \<le> 1200" using b0 by (simp add: x_def pos_divide_le_eq)
  have xN: "x + 1 / 2 = of_int N / of_int D"
    using b0 by (simp add: x_def N_def D_def add_divide_distrib)
  then have rn: "round x = n"
    by (simp add: round_def n_def floor_divide_of_int_eq)
  have ND: "N = D * n + r" by (simp add: n_def r_def)
  have r0: "0 \<le> r" and rD: "r < D" using D0 by (simp_all add: r_def)
  have xnr: "x = of_int n + of_int r / of_int D - 1 / 2"
  proof -
    have "of_int N / (of_int D :: rat) = of_int n + of_int r / of_int D"
      using D0 by (simp add: ND add_divide_distrib)
    with xN show ?thesis by linarith
  qed
  have "\<bar>x\<bar> \<le> 2 ^ 64" using x0 x1200 by simp
  from fl_err [OF this] obtain y where y: "fl x = Num y" and err: "\<bar>y - x\<bar> \<le> eps * \<bar>x\<bar> + tiny"
    by blast
  have jd: "js_div (Num (of_nat a)) (Num (of_nat b)) = Num y"
    using assms(1) y by (simp add: x_def)
  have "\<lfloor>y + 1 / 2\<rfloor> = n"
  proof (cases "r = 0")
    case True
    then have xe: "x = of_int (2 * n - 1) * 2 powi (- 1)"
      using xnr by (simp add: power_int_minus_divide)
    have bd: "\<bar>2 * n - 1\<bar> < 2 ^ 53"
    proof -
      have "0 \<le> round x" using x0 by (simp add: round_def)
      moreover have "round x \<le> round (1200::rat)" using x1200 by (rule round_mono)
      ultimately show ?thesis using rn by simp
    qed
    have "fl (of_int (2 * n - 1) * 2 powi (- 1)) = Num (of_int (2 * n - 1) * 2 powi (- 1))"
      using bd by (intro fl_exact) simp_all
    then have "fl x = Num x" unfolding xe [symmetric] .
    with y have "y = x" by simp
    then show ?thesis using xnr True by simp
  next
    case False
    with r0 have rpos: "0 < r" by simp
    have "eps * \<bar>x\<bar> \<le> eps * 1200" using x0 x1200 eps_pos by (intro mult_left_mono) simp_all
    with err tiny_le_eps have "\<bar>y - x\<bar> \<le> 1201 * eps" by linarith
    also have "\<dots> < 1 / 2 ^ 33" by (simp add: eps_num)
    also have "\<dots> \<le> 1 / of_int D"
    proof -
      have "D \<le> 2 ^ 33" using assms(2) by (simp add: D_def)
      then have "(of_int D :: rat) \<le> 2 ^ 33" by (metis of_int_le_iff of_int_numeral of_int_power)
      then show ?thesis using D0 by (simp add: frac_le)
    qed
    finally have "\<bar>y - (of_int n + of_int r / of_int D - 1 / 2)\<bar> < 1 / of_int D"
      using xnr by simp
    from floor_near [OF rpos rD this] show ?thesis .
  qed
  with jd rn show ?thesis by (simp add: x_def)
qed

lemma js_mul_1200:
  fixes h :: nat
  assumes "h \<le> 2 ^ 32"
  shows "js_mul (Num (of_nat h)) (Num 1200) = Num (of_nat (h * 1200))"
proof -
  have "h * 1200 < 2 ^ 53" using assms by simp
  from fl_nat [OF this] show ?thesis by simp
qed

lemma scaled_dimension:
  fixes a b :: nat
  assumes "a \<le> b" and "0 < b" and "b < 2 ^ 32"
  shows "Math_round (js_div (js_mul (Num (of_nat a)) (Num 1200)) (Num (of_nat b)))
         = Num (of_int (round (of_nat (a * 1200) / of_nat b :: rat)))"
proof -
  have "js_mul (Num (of_nat a)) (Num 1200) = Num (of_nat (a * 1200))"
    using assms by (intro js_mul_1200) simp
  moreover have "Math_round (js_div (Num (of_nat (a * 1200))) (Num (of_nat b)))
                 = Num (of_int (round (of_nat (a * 1200) / of_nat b :: rat)))"
    using assms by (intro Math_round_div) simp_all
  ultimately show ?thesis by (simp only:)
qed

lemma resize_exact:
  fixes W H :: nat
  assumes "W < 2 ^ 32" and "H < 2 ^ 32"
  shows "resize (Num (of_nat W)) (Num (of_nat H)) =
     (if H < W then
        (if 1200 < W
         then (Num 1200, Num (of_int (round (of_nat (H * 1200) / of_nat W :: rat))))
         else (Num (of_nat W), Num (of_nat H)))
      else
        (if 1200 < H
         then (Num (of_int (round (of_nat (W * 1200) / of_nat H :: rat))), Num 1200)
         else (Num (of_nat W), Num (of_nat H))))"
proof -
  have gt: "js_gt (Num (of_nat a)) (Num (of_nat b)) = (b < a)" for a b :: nat
    by simp
  have cap: "js_gt (Num (of_nat a)) (Num 1200) = (1200 < a)" for a :: nat
    by simp
  consider (land) "H < W" "1200 < W" | (land_small) "H < W" "\<not> 1200 < W"
    | (port) "\<not> H < W" "1200 < H" | (port_small) "\<not> H < W" "\<not> 1200 < H"
    by blast
  then show ?thesis
  proof cases
    case land
    then have "Math_round (js_div (js_mul (Num (of_nat H)) (Num 1200)) (Num (of_nat W)))
               = Num (of_int (round (of_nat (H * 1200) / of_nat W :: rat)))"
      using assms(1) by (intro scaled_dimension) simp_all
    with land show ?thesis by (simp only: resize_def Let_def gt cap if_True)
  next
    case land_small
    then show ?thesis by (simp only: resize_def Let_def gt cap if_True if_False)
  next
    case port
    then have "Math_round (js_div (js_mul (Num (of_nat W)) (Num 1200)) (Num (of_nat H)))
               = Num (of_int (round (of_nat (W * 1200) / of_nat H :: rat)))"
      using assms(2) by (intro scaled_dimension) simp_all
    with port show ?thesis by (simp only: resize_def Let_def gt cap if_True if_False)
  next
    case port_small
    then show ?thesis by (simp only: resize_def Let_def gt cap if_False)
  qed
qed

lemma unat32: "unat (w :: 32 word) < 2 ^ 32"
  using unsigned_less [of w, where ?'a = nat] by simp

lemma resize_dimension:
  fixes w h :: "32 word"
  shows "resize (dimension w) (dimension h) =
     (if unat h < unat w then
        (if 1200 < unat w
         then (Num 1200, Num (of_int (round (of_nat (unat h * 1200) / of_nat (unat w) :: rat))))
         else (dimension w, dimension h))
      else
        (if 1200 < unat h
         then (Num (of_int (round (of_nat (unat w * 1200) / of_nat (unat h) :: rat))), Num 1200)
         else (dimension w, dimension h)))"
  unfolding dimension_def by (rule resize_exact) (rule unat32)+

lemma size_estimate_exact:
  fixes L :: nat
  assumes "3 * L < 2 ^ 53"
  shows "Math_round (js_div (js_mul (Num (of_nat L)) (Num 3)) (Num 4))
         = Num (of_int (round (of_nat L * 3 / 4 :: rat)))"
proof -
  have "L * 3 < 2 ^ 53" using assms by (simp add: mult.commute)
  from fl_nat [OF this] have m: "js_mul (Num (of_nat L)) (Num 3) = Num (of_nat (L * 3))"
    by simp
  have "\<bar>int (L * 3)\<bar> < 2 ^ 53" using assms by simp
  then have "fl (of_int (int (L * 3)) * 2 powi (- 2)) = Num (of_int (int (L * 3)) * 2 powi (- 2))"
    by (intro fl_exact) simp_all
  then have d: "js_div (Num (of_nat (L * 3))) (Num 4) = Num (of_nat (L * 3) / 4)"
    by (simp add: power_int_minus_divide)
  show ?thesis unfolding m d by (simp add: round_def)
qed

text \<open>
  The three roundings of the reduction, division, subtraction and multiplication, move
  the value by a small multiple of the unit roundoff: by less than the distance
  \<open>1 / (2 * originalSize)\<close> between the exact value and the nearest tie that it is not
  on, and by nothing when the quotient is a multiple of an eighth.
\<close>

lemma fl_err_rel:
  assumes "\<bar>x\<bar> \<le> 2 ^ 64"
  shows "\<exists>y. fl x = Num y \<and> \<bar>y - x\<bar> \<le> (\<bar>x\<bar> + 1) / 2 ^ 53"
proof -
  from fl_err [OF assms] obtain y where y: "fl x = Num y" and e: "\<bar>y - x\<bar> \<le> eps * \<bar>x\<bar> + tiny"
    by blast
  from e tiny_le_eps have "\<bar>y - x\<bar> \<le> eps * \<bar>x\<bar> + eps" by linarith
  also have "\<dots> = (\<bar>x\<bar> + 1) / 2 ^ 53" by (simp add: eps_num add_divide_distrib)
  finally show ?thesis using y by blast
qed

lemma reduction_error_rel:
  fixes os cs :: nat
  assumes "0 < os" and "cs < 2 ^ 32"
  shows "\<exists>p1. js_mul (js_sub (Num 1) (js_div (Num (of_nat cs)) (Num (of_nat os)))) (Num 100) = Num p1
              \<and> \<bar>p1 - (1 - of_nat cs / of_nat os) * 100\<bar>
                  \<le> 1000 * (1 + of_nat cs / of_nat os) / 2 ^ 53"
proof -
  define q :: rat where "q = of_nat cs / of_nat os"
  have q0: "0 \<le> q" by (simp add: q_def)
  have "(1::rat) \<le> of_nat os" using assms(1) by simp
  moreover have "(of_nat cs :: rat) \<le> 2 ^ 32" using assms(2)
    by (metis less_imp_le of_nat_le_iff of_nat_numeral of_nat_power)
  ultimately have "of_nat cs / of_nat os \<le> (2 ^ 32 / 1 :: rat)"
    by (intro frac_le) simp_all
  then have q32: "q \<le> 4294967296" by (simp add: q_def)
  have "\<bar>q\<bar> \<le> 2 ^ 64" using q0 q32 by simp
  from fl_err_rel [OF this] obtain q1 where q1: "fl q = Num q1"
    and e1: "\<bar>q1 - q\<bar> \<le> (\<bar>q\<bar> + 1) / 2 ^ 53"
    by auto
  define a where "a = \<bar>q1 - q\<bar>"
  define A where "A = \<bar>1 - q1\<bar>"
  from e1 q0 have e1': "a \<le> (1 / 9007199254740992) * q + 1 / 9007199254740992"
    by (simp add: a_def add_divide_distrib)
  have d: "js_div (Num (of_nat cs)) (Num (of_nat os)) = Num q1"
    using assms(1) q1 by (simp add: q_def)
  have A1: "A \<le> 1 + q + a" using q0 unfolding A_def a_def by linarith
  with q32 e1' have "A \<le> 2 ^ 64" by simp
  then have "\<bar>1 - q1\<bar> \<le> 2 ^ 64" by (simp only: A_def)
  from fl_err_rel [OF this] obtain s1 where s1: "fl (1 - q1) = Num s1"
    and e2: "\<bar>s1 - (1 - q1)\<bar> \<le> (\<bar>1 - q1\<bar> + 1) / 2 ^ 53"
    by auto
  define b where "b = \<bar>s1 - (1 - q1)\<bar>"
  define S where "S = \<bar>s1\<bar>"
  from e2 have e2': "b \<le> (1 / 9007199254740992) * A + 1 / 9007199254740992"
    by (simp add: b_def A_def add_divide_distrib)
  have s: "js_sub (Num 1) (Num q1) = Num s1" using s1 by simp
  have S1: "S \<le> A + b" unfolding S_def A_def b_def by linarith
  with A1 q32 e1' e2' have "S \<le> 4294967299" by linarith
  then have "\<bar>s1 * 100\<bar> \<le> 2 ^ 64" by (simp add: abs_mult S_def)
  from fl_err_rel [OF this] obtain p1 where p1: "fl (s1 * 100) = Num p1"
    and e3: "\<bar>p1 - s1 * 100\<bar> \<le> (\<bar>s1 * 100\<bar> + 1) / 2 ^ 53"
    by auto
  define c where "c = \<bar>p1 - s1 * 100\<bar>"
  from e3 have e3': "c \<le> (100 / 9007199254740992) * S + 1 / 9007199254740992"
    by (simp add: c_def S_def add_divide_distrib abs_mult)
  have m: "js_mul (Num s1) (Num 100) = Num p1" using p1 by simp
  have ca: "p1 - s1 * 100 \<le> c" "s1 * 100 - p1 \<le> c" unfolding c_def by linarith+
  have ba: "s1 - (1 - q1) \<le> b" "(1 - q1) - s1 \<le> b" unfolding b_def by linarith+
  have aa: "q1 - q \<le> a" "q - q1 \<le> a" unfolding a_def by linarith+
  have "\<bar>p1 - (100 - 100 * q)\<bar> \<le> c + 100 * b + 100 * a"
    using ca ba aa by linarith
  also have "\<dots> \<le> 1000 / 9007199254740992 + (1000 / 9007199254740992) * q"
    using q0 e1' A1 e2' S1 e3' by linarith
  finally have "\<bar>p1 - (100 - 100 * q)\<bar> \<le> 1000 / 9007199254740992 + (1000 / 9007199254740992) * q" .
  moreover have "(1 - q) * 100 = 100 - 100 * q" by (simp add: algebra_simps)
  moreover have "1000 / 9007199254740992 + (1000 / 9007199254740992) * q = 1000 * (1 + q) / 2 ^ 53"
    by (simp add: algebra_simps add_divide_distrib)
  ultimately have "\<bar>p1 - (1 - q) * 100\<bar> \<le> 1000 * (1 + q) / 2 ^ 53" by (simp only:)
  then show ?thesis unfolding d s m q_def by blast
qed

lemma reduction_close:
  fixes os cs :: nat
  assumes "0 < os" and "os < 2 ^ 32" and "cs < 2 ^ 32"
  shows "\<exists>p1. js_mul (js_sub (Num 1) (js_div (Num (of_nat cs)) (Num (of_nat os)))) (Num 100) = Num p1
              \<and> \<bar>p1 - (1 - of_nat cs / of_nat os) * 100\<bar> < 1 / (2 * of_nat os)"
proof -
  from reduction_error_rel [OF assms(1,3)] obtain p1
    where p1: "js_mul (js_sub (Num 1) (js_div (Num (of_nat cs)) (Num (of_nat os)))) (Num 100) = Num p1"
      and e: "\<bar>p1 - (1 - of_nat cs / of_nat os) * 100\<bar>
                \<le> 1000 * (1 + of_nat cs / of_nat os) / 2 ^ 53"
    by blast
  have o: "(0::rat) < of_nat os" using assms(1) by simp
  have "os + cs < 2 ^ 33" using assms(2,3) by simp
  then have "(of_nat (os + cs) :: rat) < of_nat (2 ^ 33)" by (simp only: of_nat_less_iff)
  then have sum: "(of_nat os + of_nat cs :: rat) < 8589934592" by simp
  have "1000 * (1 + of_nat cs / of_nat os) / 2 ^ 53
        = (1000 * (of_nat os + of_nat cs) / 2 ^ 53) / (of_nat os :: rat)"
    using o by (simp add: field_simps)
  also have "\<dots> < (1 / 2) / of_nat os"
  proof (rule divide_strict_right_mono [OF _ o])
    from sum show "1000 * (of_nat os + of_nat cs) / 2 ^ 53 < (1 / 2 :: rat)" by simp
  qed
  also have "\<dots> = 1 / (2 * of_nat os)" by simp
  finally have "1000 * (1 + of_nat cs / of_nat os) / 2 ^ 53 < 1 / (2 * (of_nat os :: rat))" .
  with e have "\<bar>p1 - (1 - of_nat cs / of_nat os) * 100\<bar> < 1 / (2 * of_nat os)" by linarith
  with p1 show ?thesis by blast
qed

lemma reduction_exact:
  fixes os cs :: nat
  assumes "0 < os" and "os dvd 8 * cs" and "cs < 2 ^ 32"
  shows "js_mul (js_sub (Num 1) (js_div (Num (of_nat cs)) (Num (of_nat os)))) (Num 100)
         = Num ((1 - of_nat cs / of_nat os) * 100)"
proof -
  from assms(2) obtain j where j: "8 * cs = os * j" by (auto simp: dvd_def)
  have o: "(of_nat os :: rat) \<noteq> 0" using assms(1) by simp
  have "(of_nat (8 * cs) :: rat) = of_nat (os * j)" by (simp only: j)
  then have "8 * (of_nat cs :: rat) = of_nat os * of_nat j" by simp
  then have q: "(of_nat cs / of_nat os :: rat) = of_nat j / 8" using o by (simp add: field_simps)
  have "j \<le> os * j" using assms(1) by simp
  then have "j \<le> 8 * cs" by (simp only: j)
  moreover have "8 * cs < 2 ^ 35" using assms(3) by simp
  ultimately have jb: "j < 2 ^ 35" by (rule le_less_trans)
  have p3: "(2::rat) powi (- 3) = 1 / 8" by (simp add: power_int_minus_divide)
  have "fl (of_int (int j) * 2 powi (- 3)) = Num (of_int (int j) * 2 powi (- 3))"
    using jb by (intro fl_exact) simp_all
  then have f1: "fl (of_nat j / 8) = Num (of_nat j / 8)" by (simp add: p3)
  have "fl (of_int (8 - int j) * 2 powi (- 3)) = Num (of_int (8 - int j) * 2 powi (- 3))"
    using jb by (intro fl_exact) simp_all
  then have f2: "fl (1 - of_nat j / 8) = Num (1 - of_nat j / 8)"
    by (simp add: p3 diff_divide_distrib)
  have "fl (of_int (100 * (8 - int j)) * 2 powi (- 3)) = Num (of_int (100 * (8 - int j)) * 2 powi (- 3))"
    using jb by (intro fl_exact) simp_all
  moreover have "(of_int (100 * (8 - int j)) * 2 powi (- 3) :: rat) = (1 - of_nat j / 8) * 100"
    by (simp add: p3 algebra_simps diff_divide_distrib)
  ultimately have f3: "fl ((1 - of_nat j / 8) * 100) = Num ((1 - of_nat j / 8) * 100)"
    by (simp only:)
  have "js_div (Num (of_nat cs)) (Num (of_nat os)) = Num (of_nat j / 8)"
    using o f1 by (simp add: q)
  moreover have "js_sub (Num 1) (Num (of_nat j / 8)) = Num (1 - of_nat j / 8)"
    using f2 by simp
  moreover have "js_mul (Num (1 - of_nat j / 8)) (Num 100) = Num ((1 - of_nat j / 8) * 100)"
    using f3 by simp
  ultimately show ?thesis by (simp only: q)
qed

lemma round_off_tie:
  fixes t y :: rat and N D :: int
  assumes "0 < D" and "t + 1 / 2 = of_int N / of_int D" and "frac t \<noteq> 1 / 2"
    and "\<bar>y - t\<bar> < 1 / of_int D"
  shows "\<lfloor>y + 1 / 2\<rfloor> = round t"
proof -
  define n where "n = N div D"
  define r where "r = N mod D"
  have ND: "N = D * n + r" by (simp add: n_def r_def)
  have r0: "0 \<le> r" and rD: "r < D" using assms(1) by (simp_all add: r_def)
  have rn: "round t = n"
    by (simp add: round_def assms(2) n_def floor_divide_of_int_eq)
  have "of_int N / (of_int D :: rat) = of_int n + of_int r / of_int D"
    using assms(1) by (simp add: ND add_divide_distrib)
  with assms(2) have tn: "t = of_int n + of_int r / of_int D - 1 / 2" by linarith
  have "r \<noteq> 0"
  proof
    assume "r = 0"
    with tn have t: "t = of_int (n - 1) + 1 / 2" by simp
    have "\<lfloor>t\<rfloor> = n - 1" unfolding t by (rule floor_unique) simp_all
    then have "frac t = 1 / 2" by (simp add: frac_def t)
    with assms(3) show False by simp
  qed
  with r0 have rpos: "0 < r" by simp
  from assms(4) have "\<bar>y - (of_int n + of_int r / of_int D - 1 / 2)\<bar> < 1 / of_int D"
    by (simp only: tn [symmetric])
  from floor_near [OF rpos rD this] rn show ?thesis by simp
qed

lemma round_at_tie:
  fixes t y :: rat
  assumes "frac t = 1 / 2" and "\<bar>y - t\<bar> < 1 / 2"
  shows "\<lfloor>y + 1 / 2\<rfloor> = round t \<or> \<lfloor>y + 1 / 2\<rfloor> = round t - 1"
proof -
  define k where "k = \<lfloor>t\<rfloor>"
  from assms(1) have t: "t = of_int k + 1 / 2" by (simp add: frac_def k_def)
  have "t + 1 / 2 = of_int (k + 1)" by (simp add: t)
  then have rt: "round t = k + 1" by (simp only: round_def floor_of_int)
  from assms(2) have lo: "of_int k < y" and hi: "y < of_int k + 1"
    unfolding t by linarith+
  show ?thesis
  proof (cases "y + 1 / 2 < of_int (k + 1)")
    case True
    have "\<lfloor>y + 1 / 2\<rfloor> = k" using lo True by (intro floor_unique) simp_all
    with rt show ?thesis by simp
  next
    case False
    then have "\<lfloor>y + 1 / 2\<rfloor> = k + 1" using hi by (intro floor_unique) simp_all
    with rt show ?thesis by simp
  qed
qed

section \<open>Values at the examples\<close>

lemma fl_17_40: "fl (17000 / 40000) = Num (7656119366529843 / 18014398509481984)"
  by (subst fl_eval [where k = "- 2"])
     (simp_all add: round_half_even_def Let_def floor_rat_numeral power_int_minus_divide)

lemma fl_sub: "fl (1 - 7656119366529843 / 18014398509481984) = Num (2589569785738035 / 4503599627370496)"
  by (subst fl_eval [where k = "- 1"])
     (simp_all add: round_half_even_def Let_def floor_rat_numeral power_int_minus_divide)

lemma fl_mul: "fl (2589569785738035 / 4503599627370496 * 100) = Num (8092405580431359 / 140737488355328)"
  by (subst fl_eval [where k = 5])
     (simp_all add: round_half_even_def Let_def floor_rat_numeral power_int_minus_divide)

lemma fl_quarter: "fl (1 / 4) = Num (1 / 4)"
  using fl_exact [of 1 "- 2"] by (simp add: power_int_minus_divide)

lemma fl_three_quarters: "fl (3 / 4) = Num (3 / 4)"
  using fl_exact [of 3 "- 2"] by (simp add: power_int_minus_divide)

lemma fl_75: "fl 75 = Num 75"
  using fl_int [of 75] by simp

lemma compressImage_example: "compressImage example_platform photo = Resolved compressed_photo"
proof -
  have "resize (dimension 2400) (dimension 1200) = (Num 1200, Num 600)"
    by (simp add: resize_dimension)
  moreover have "Math_round (js_div (js_mul (Num (of_nat 31)) (Num 3)) (Num 4)) = Num 23"
    by (subst size_estimate_exact) (simp_all add: round_def floor_rat_numeral)
  ultimately show ?thesis
    by (simp add: compressImage_def example_platform_def photo_def compressed_photo_def js_length_def)
qed

lemma tie_image_reachable: "compressImage tie_platform tie_file = Resolved tie_image"
proof -
  have "resize (dimension 600) (dimension 400) = (Num 600, Num 400)"
    by (subst resize_dimension) (simp add: dimension_def)
  moreover have "Math_round (js_div (js_mul (Num (of_nat 22667)) (Num 3)) (Num 4)) = Num 17000"
    by (subst size_estimate_exact) (simp_all add: round_def floor_rat_numeral)
  ultimately show ?thesis
    by (simp add: compressImage_def tie_platform_def tie_file_def tie_image_def js_length_def)
qed

lemma reduction_tie: "reduction tie_image = Num 57"
proof -
  have "js_div (Num 17000) (Num 40000) = Num (7656119366529843 / 18014398509481984)"
    using fl_17_40 by simp
  moreover have "js_sub (Num 1) (Num (7656119366529843 / 18014398509481984))
                 = Num (2589569785738035 / 4503599627370496)"
    using fl_sub by simp
  moreover have "js_mul (Num (2589569785738035 / 4503599627370496)) (Num 100)
                 = Num (8092405580431359 / 140737488355328)"
    using fl_mul by simp
  moreover have "Math_round (Num (8092405580431359 / 140737488355328)) = Num 57"
    by (simp add: floor_rat_numeral)
  ultimately show ?thesis by (simp add: reduction_def tie_image_def)
qed

section \<open>What settles the promise\<close>

lemma compressImage_Resolved:
  assumes "compressImage env file = Resolved r"
  shows "\<exists>src w h. readAsDataURL env file = Some src \<and> decode env src = Some (w, h) \<and>
           r = \<lparr>originalSize = file_size file,
                compressedSize =
                  Math_round (js_div (js_mul (js_length
                    (toDataURL env
                       \<lparr>canvas_width = fst (resize (dimension w) (dimension h)),
                        canvas_height = snd (resize (dimension w) (dimension h)),
                        canvas_drawn = Some (src, Num 0, Num 0,
                          fst (resize (dimension w) (dimension h)),
                          snd (resize (dimension w) (dimension h)))\<rparr>
                       ''image/jpeg'' (7 / 10))) (Num 3)) (Num 4)),
                compressedDataUrl =
                  toDataURL env
                    \<lparr>canvas_width = fst (resize (dimension w) (dimension h)),
                     canvas_height = snd (resize (dimension w) (dimension h)),
                     canvas_drawn = Some (src, Num 0, Num 0,
                       fst (resize (dimension w) (dimension h)),
                       snd (resize (dimension w) (dimension h)))\<rparr>
                    ''image/jpeg'' (7 / 10),
                name = file_name file\<rparr>"
  using assms
  by (auto simp: compressImage_def Let_def split: option.splits prod.splits)

lemma compressImage_size:
  assumes "compressImage env file = Resolved r"
  shows "compressedSize r
         = Math_round (js_div (js_mul (js_length (compressedDataUrl r)) (Num 3)) (Num 4))"
  using compressImage_Resolved [OF assms] by auto

lemma compressImage_not_Rejected: "compressImage env file \<noteq> Rejected err"
  by (simp add: compressImage_def Let_def split: option.splits prod.splits)

section \<open>The new dimensions\<close>

text \<open>
  Below, \<open>w\<close> and \<open>h\<close> are \<^verbatim>\<open>img.width\<close> and \<^verbatim>\<open>img.height\<close>, and \<open>unat w\<close>,
  \<open>unat h\<close> the integers \<open>W\<close> and \<open>H\<close> they stand for. \<open>round\<close> is rounding of the exact
  quotient to the nearest integer, a tie going up.
\<close>

text \<open>
  Claim C1. For every source dimension pair \<open>(W, H)\<close> with \<open>W > 1200\<close> and \<open>W \<ge> H\<close> the
  resize computation returns \<open>W' = 1200\<close> and \<open>H' = round (H * 1200 / W)\<close>. The code
  tests \<open>W > H\<close>, so a square image wider than 1200 goes through the other branch; it
  gets the same result there.
\<close>

theorem resize_landscape:
  fixes w h :: "32 word"
  assumes "1200 < unat w" and "unat h \<le> unat w"
  shows "resize (dimension w) (dimension h)
         = (Num 1200, Num (of_int (round (of_nat (unat h) * 1200 / of_nat (unat w) :: rat))))"
proof (cases "unat h < unat w")
  case True
  with assms(1) show ?thesis by (simp add: resize_dimension del: of_nat_unat)
next
  case False
  with assms have eq: "unat h = unat w" by simp
  have "round (of_nat n * 1200 / of_nat n :: rat) = 1200" if "1200 < n" for n :: nat
    using that by simp
  from this [OF assms(1)] show ?thesis
    using assms(1) by (simp add: resize_dimension eq del: of_nat_unat)
qed

theorem resize_landscape_witness:
  "1200 < unat (2400 :: 32 word) \<and> unat (1200 :: 32 word) \<le> unat (2400 :: 32 word)
   \<and> resize (dimension 2400) (dimension 1200) = (Num 1200, Num 600)"
  using resize_landscape [of 2400 1200] by simp

text \<open>
  Claim C2. For every source dimension pair \<open>(W, H)\<close> with \<open>H > 1200\<close> and \<open>H > W\<close> the
  resize computation returns \<open>H' = 1200\<close> and \<open>W' = round (W * 1200 / H)\<close>.
\<close>

theorem resize_portrait:
  fixes w h :: "32 word"
  assumes "1200 < unat h" and "unat w < unat h"
  shows "resize (dimension w) (dimension h)
         = (Num (of_int (round (of_nat (unat w) * 1200 / of_nat (unat h) :: rat))), Num 1200)"
  using assms by (simp add: resize_dimension del: of_nat_unat)

theorem resize_portrait_witness:
  "1200 < unat (2400 :: 32 word) \<and> unat (800 :: 32 word) < unat (2400 :: 32 word)
   \<and> resize (dimension 800) (dimension 2400) = (Num 400, Num 1200)"
  using resize_portrait [of 2400 800] by simp

text \<open>
  Claim C3. For every source dimension pair \<open>(W, H)\<close> with \<open>W \<le> 1200\<close> and
  \<open>H \<le> 1200\<close> the resize computation is the identity: nothing is scaled up.
\<close>

theorem resize_within_caps:
  fixes w h :: "32 word"
  assumes "unat w \<le> 1200" and "unat h \<le> 1200"
  shows "resize (dimension w) (dimension h) = (dimension w, dimension h)"
  using assms by (simp add: resize_dimension)

theorem resize_within_caps_witness:
  "unat (600 :: 32 word) \<le> 1200 \<and> unat (400 :: 32 word) \<le> 1200
   \<and> resize (dimension 600) (dimension 400) = (Num 600, Num 400)"
  using resize_within_caps [of 600 400] by (simp add: dimension_def)

text \<open>
  Claim C4. For every source dimension pair of positive integers the resize computation
  keeps the aspect ratio up to the rounding of one dimension: the dimension that is
  capped is \<open>min\<close> of its old value and 1200, and the other one differs from the exactly
  proportional value by at most half a pixel, so by less than the one pixel of the
  claim.
\<close>

theorem resize_aspect_ratio:
  fixes w h :: "32 word"
  assumes "0 < unat w" and "0 < unat h"
  shows "\<exists>W' H' :: int.
           resize (dimension w) (dimension h) = (Num (of_int W'), Num (of_int H')) \<and>
           (if unat h < unat w
            then W' = min (int (unat w)) 1200 \<and>
                 \<bar>of_int H' - of_nat (unat h) * of_int W' / of_nat (unat w)\<bar> \<le> (1 / 2 :: rat)
            else H' = min (int (unat h)) 1200 \<and>
                 \<bar>of_int W' - of_nat (unat w) * of_int H' / of_nat (unat h)\<bar> \<le> (1 / 2 :: rat))"
proof -
  define W where "W = unat w"
  define H where "H = unat h"
  have W0: "0 < W" and H0: "0 < H" using assms by (simp_all add: W_def H_def)
  have rs: "resize (Num (of_nat W)) (Num (of_nat H)) =
     (if H < W then
        (if 1200 < W
         then (Num 1200, Num (of_int (round (of_nat (H * 1200) / of_nat W :: rat))))
         else (Num (of_nat W), Num (of_nat H)))
      else
        (if 1200 < H
         then (Num (of_int (round (of_nat (W * 1200) / of_nat H :: rat))), Num 1200)
         else (Num (of_nat W), Num (of_nat H))))"
    unfolding W_def H_def by (rule resize_exact) (rule unat32)+
  have rnd: "\<bar>of_int (round x) - x\<bar> \<le> (1 / 2 :: rat)" for x :: rat
    by (rule of_int_round_abs_le)
  consider (land) "H < W" "1200 < W" | (land_small) "H < W" "\<not> 1200 < W"
    | (port) "\<not> H < W" "1200 < H" | (port_small) "\<not> H < W" "\<not> 1200 < H"
    by blast
  then have "\<exists>W' H' :: int.
           resize (Num (of_nat W)) (Num (of_nat H)) = (Num (of_int W'), Num (of_int H')) \<and>
           (if H < W
            then W' = min (int W) 1200 \<and>
                 \<bar>of_int H' - of_nat H * of_int W' / of_nat W\<bar> \<le> (1 / 2 :: rat)
            else H' = min (int H) 1200 \<and>
                 \<bar>of_int W' - of_nat W * of_int H' / of_nat H\<bar> \<le> (1 / 2 :: rat))"
  proof cases
    case land
    have "\<bar>of_int (round (of_nat (H * 1200) / of_nat W :: rat)) - of_nat H * of_int 1200 / of_nat W\<bar>
          \<le> (1 / 2 :: rat)"
      using rnd [of "of_nat (H * 1200) / of_nat W"] by simp
    with land show ?thesis
      by (intro exI [of _ 1200] exI [of _ "round (of_nat (H * 1200) / of_nat W :: rat)"])
         (simp add: rs)
  next
    case land_small
    with W0 show ?thesis
      by (intro exI [of _ "int W"] exI [of _ "int H"]) (simp add: rs)
  next
    case port
    have "\<bar>of_int (round (of_nat (W * 1200) / of_nat H :: rat)) - of_nat W * of_int 1200 / of_nat H\<bar>
          \<le> (1 / 2 :: rat)"
      using rnd [of "of_nat (W * 1200) / of_nat H"] by simp
    with port show ?thesis
      by (intro exI [of _ "round (of_nat (W * 1200) / of_nat H :: rat)"] exI [of _ 1200])
         (simp add: rs)
  next
    case port_small
    with H0 show ?thesis
      by (intro exI [of _ "int W"] exI [of _ "int H"]) (simp add: rs)
  qed
  then show ?thesis by (simp only: W_def H_def dimension_def)
qed

theorem resize_aspect_ratio_witness:
  "0 < unat (800 :: 32 word) \<and> 0 < unat (2400 :: 32 word) \<and>
   (\<exists>W' H' :: int.
      resize (dimension 800) (dimension 2400) = (Num (of_int W'), Num (of_int H')) \<and>
      H' = 1200 \<and> \<bar>of_int W' - 800 * of_int H' / 2400\<bar> \<le> (1 / 2 :: rat))"
  using resize_aspect_ratio [of 800 2400] by simp

text \<open>
  Claim C5. For every source dimension pair the output of the resize computation
  satisfies \<open>W' \<le> 1200\<close> and \<open>H' \<le> 1200\<close>: in the branch taken the other dimension
  is at most the capped one.
\<close>

theorem resize_capped:
  fixes w h :: "32 word"
  shows "\<exists>W' H' :: int.
           resize (dimension w) (dimension h) = (Num (of_int W'), Num (of_int H')) \<and>
           W' \<le> 1200 \<and> H' \<le> 1200"
proof -
  define W where "W = unat w"
  define H where "H = unat h"
  have rs: "resize (Num (of_nat W)) (Num (of_nat H)) =
     (if H < W then
        (if 1200 < W
         then (Num 1200, Num (of_int (round (of_nat (H * 1200) / of_nat W :: rat))))
         else (Num (of_nat W), Num (of_nat H)))
      else
        (if 1200 < H
         then (Num (of_int (round (of_nat (W * 1200) / of_nat H :: rat))), Num 1200)
         else (Num (of_nat W), Num (of_nat H))))"
    unfolding W_def H_def by (rule resize_exact) (rule unat32)+
  have le: "round (of_nat (a * 1200) / of_nat b :: rat) \<le> 1200" if "a \<le> b" and "0 < b" for a b :: nat
  proof -
    have "(of_nat (a * 1200) :: rat) \<le> of_nat (b * 1200)" using that(1) by (simp only: of_nat_le_iff)
    then have "(of_nat (a * 1200) / of_nat b :: rat) \<le> 1200" using that(2) by (simp add: pos_divide_le_eq)
    then have "round (of_nat (a * 1200) / of_nat b :: rat) \<le> round (1200 :: rat)" by (rule round_mono)
    then show ?thesis by simp
  qed
  consider (land) "H < W" "1200 < W" | (land_small) "H < W" "\<not> 1200 < W"
    | (port) "\<not> H < W" "1200 < H" | (port_small) "\<not> H < W" "\<not> 1200 < H"
    by blast
  then have "\<exists>W' H' :: int.
           resize (Num (of_nat W)) (Num (of_nat H)) = (Num (of_int W'), Num (of_int H')) \<and>
           W' \<le> 1200 \<and> H' \<le> 1200"
  proof cases
    case land
    then have "round (of_nat (H * 1200) / of_nat W :: rat) \<le> 1200" by (intro le) simp_all
    with land show ?thesis
      by (intro exI [of _ 1200] exI [of _ "round (of_nat (H * 1200) / of_nat W :: rat)"])
         (simp add: rs)
  next
    case land_small
    then show ?thesis
      by (intro exI [of _ "int W"] exI [of _ "int H"]) (simp add: rs)
  next
    case port
    then have "round (of_nat (W * 1200) / of_nat H :: rat) \<le> 1200" by (intro le) simp_all
    with port show ?thesis
      by (intro exI [of _ "round (of_nat (W * 1200) / of_nat H :: rat)"] exI [of _ 1200])
         (simp add: rs)
  next
    case port_small
    then show ?thesis
      by (intro exI [of _ "int W"] exI [of _ "int H"]) (simp add: rs)
  qed
  then show ?thesis by (simp only: W_def H_def dimension_def)
qed

theorem resize_capped_witness:
  "\<exists>W' H' :: int.
     resize (dimension 5000) (dimension 3000) = (Num (of_int W'), Num (of_int H')) \<and>
     W' \<le> 1200 \<and> H' \<le> 1200"
  using resize_capped [of 5000 3000] .

section \<open>The result of a compression\<close>

text \<open>
  Claim C6. For every successful compression the \<^verbatim>\<open>compressedSize\<close> of the result is
  \<open>round (L * 3 / 4)\<close>, where \<open>L\<close> is the length of the data URL: an estimate from the
  length of the text. The product \<open>L * 3\<close> has to be below \<open>2 ^ 53\<close> to be computed
  exactly; no engine has strings of a length near that.
\<close>

theorem compressedSize_estimate:
  assumes "compressImage env file = Resolved r"
    and "3 * length (compressedDataUrl r) < 2 ^ 53"
  shows "compressedSize r
         = Num (of_int (round (of_nat (length (compressedDataUrl r)) * 3 / 4 :: rat)))"
  using compressImage_size [OF assms(1)] size_estimate_exact [OF assms(2)]
  by (simp add: js_length_def)

theorem compressedSize_estimate_witness:
  "compressImage example_platform photo = Resolved compressed_photo
   \<and> 3 * length (compressedDataUrl compressed_photo) < 2 ^ 53
   \<and> compressedSize compressed_photo = Num 23"
proof -
  have len: "3 * length (compressedDataUrl compressed_photo) < 2 ^ 53"
    by (simp add: compressed_photo_def)
  from compressedSize_estimate [OF compressImage_example len] compressImage_example len
  show ?thesis by (simp add: compressed_photo_def)
qed

section \<open>The reduction shown\<close>

text \<open>
  Claim C7, as the claim states it, fails: the percentage shown is not always the
  rounding of the exact value \<open>(1 - compressedSize / originalSize) * 100\<close>. For a file
  of 40000 bytes and a result of 17000 bytes the exact value is \<open>57.5\<close>, which rounds to
  58; the three roundings of the binary64 computation leave a value just below
  \<open>57.5\<close>, and 57 is shown.
\<close>

theorem reduction_counterexample:
  "originalSize tie_image = Num 40000 \<and> compressedSize tie_image = Num 17000
   \<and> reduction tie_image = Num 57
   \<and> round ((1 - 17000 / 40000) * 100 :: rat) = 58
   \<and> reduction tie_image \<noteq> Num (of_int (round ((1 - 17000 / 40000) * 100 :: rat)))"
proof -
  have r: "round ((1 - 17000 / 40000) * 100 :: rat) = 58"
    by (simp add: round_def floor_rat_numeral)
  show ?thesis unfolding r reduction_tie by (simp add: tie_image_def)
qed

text \<open>
  Claim C7, amended. For sizes that are integers below \<open>2 ^ 32\<close>, and \<open>t\<close> the exact
  value \<open>(1 - compressedSize / originalSize) * 100\<close>: when \<^verbatim>\<open>originalSize\<close> is positive
  the percentage shown is \<open>round t\<close> whenever \<open>t\<close> is not an exact tie (its fractional
  part is not one half), and also whenever \<^verbatim>\<open>originalSize\<close> divides
  \<open>8 * compressedSize\<close>, ties included (8 and 7 show 13); at an exact tie it is
  \<open>round t\<close> or \<open>round t - 1\<close>, and for 40000 and 17000 it is the latter, 57. For
  1,000,000 and 250,000 it is 75. When
  \<^verbatim>\<open>originalSize\<close> is 0 the expression is evaluated all the same and gives NaN or
  \<open>-Infinity\<close>.
\<close>

theorem reduction_rounding:
  fixes os cs :: nat
  assumes "originalSize img = Num (of_nat os)" and "compressedSize img = Num (of_nat cs)"
    and "os < 2 ^ 32" and "cs < 2 ^ 32"
  shows "(let t = (1 - of_nat cs / of_nat os) * 100 :: rat in
           (0 < os \<and> frac t \<noteq> 1 / 2 \<longrightarrow> reduction img = Num (of_int (round t)))
         \<and> (0 < os \<and> os dvd 8 * cs \<longrightarrow> reduction img = Num (of_int (round t)))
         \<and> (0 < os \<and> frac t = 1 / 2 \<longrightarrow>
               reduction img = Num (of_int (round t)) \<or> reduction img = Num (of_int (round t - 1))))
       \<and> (os = 1000000 \<and> cs = 250000 \<longrightarrow> reduction img = Num 75)
       \<and> (os = 40000 \<and> cs = 17000 \<longrightarrow> reduction img = Num 57)
       \<and> (os = 0 \<longrightarrow> reduction img = (if cs = 0 then NaN else NegInfinity))"
proof -
  define t :: rat where "t = (1 - of_nat cs / of_nat os) * 100"
  have red: "reduction img
             = Math_round (js_mul (js_sub (Num 1) (js_div (Num (of_nat cs)) (Num (of_nat os)))) (Num 100))"
    by (simp only: reduction_def assms(1,2))
  have close: "\<exists>p1. reduction img = Num (of_int \<lfloor>p1 + 1 / 2\<rfloor>) \<and> \<bar>p1 - t\<bar> < 1 / (2 * of_nat os)"
    if "0 < os"
  proof -
    from reduction_close [OF that assms(3,4)] obtain p1
      where "js_mul (js_sub (Num 1) (js_div (Num (of_nat cs)) (Num (of_nat os)))) (Num 100) = Num p1"
        and "\<bar>p1 - t\<bar> < 1 / (2 * of_nat os)"
      unfolding t_def by blast
    then show ?thesis unfolding red by auto
  qed
  have off_tie: "reduction img = Num (of_int (round t))" if "0 < os" and "frac t \<noteq> 1 / 2"
  proof -
    from close [OF that(1)] obtain p1 where r: "reduction img = Num (of_int \<lfloor>p1 + 1 / 2\<rfloor>)"
      and e: "\<bar>p1 - t\<bar> < 1 / (2 * of_nat os)"
      by blast
    have o: "(of_nat os :: rat) \<noteq> 0" using that(1) by simp
    have D: "0 < 2 * int os" using that(1) by simp
    have "t + 1 / 2 = of_int (200 * (int os - int cs) + int os) / of_int (2 * int os)"
      using o by (simp add: t_def field_simps)
    moreover from e have "\<bar>p1 - t\<bar> < 1 / of_int (2 * int os)" by simp
    ultimately have "\<lfloor>p1 + 1 / 2\<rfloor> = round t"
      using D that(2) by (intro round_off_tie [where D = "2 * int os"]) 
    with r show ?thesis by simp
  qed
  have exact: "reduction img = Num (of_int (round t))" if "0 < os" and "os dvd 8 * cs"
    unfolding red reduction_exact [OF that assms(4)] by (simp add: t_def round_def)
  have at_tie: "reduction img = Num (of_int (round t)) \<or> reduction img = Num (of_int (round t - 1))"
    if "0 < os" and "frac t = 1 / 2"
  proof -
    from close [OF that(1)] obtain p1 where r: "reduction img = Num (of_int \<lfloor>p1 + 1 / 2\<rfloor>)"
      and e: "\<bar>p1 - t\<bar> < 1 / (2 * of_nat os)"
      by blast
    have "(1::rat) \<le> of_nat os" using that(1) by simp
    then have "1 / (2 * of_nat os) \<le> (1 / 2 :: rat)" by (simp add: field_simps)
    with e have "\<bar>p1 - t\<bar> < 1 / 2" by linarith
    from round_at_tie [OF that(2) this] r show ?thesis by auto
  qed
  have ex75: "reduction img = Num 75" if "os = 1000000 \<and> cs = 250000"
    using that by (simp add: reduction_def assms(1,2) fl_quarter fl_three_quarters fl_75 floor_rat_numeral)
  have ex57: "reduction img = Num 57" if "os = 40000 \<and> cs = 17000"
  proof -
    have "js_div (Num 17000) (Num 40000) = Num (7656119366529843 / 18014398509481984)"
      using fl_17_40 by simp
    moreover have "js_sub (Num 1) (Num (7656119366529843 / 18014398509481984))
                   = Num (2589569785738035 / 4503599627370496)"
      using fl_sub by simp
    moreover have "js_mul (Num (2589569785738035 / 4503599627370496)) (Num 100)
                   = Num (8092405580431359 / 140737488355328)"
      using fl_mul by simp
    moreover have "Math_round (Num (8092405580431359 / 140737488355328)) = Num 57"
      by (simp add: floor_rat_numeral)
    ultimately show ?thesis using that by (simp add: reduction_def assms(1,2))
  qed
  have zero: "reduction img = (if cs = 0 then NaN else NegInfinity)" if "os = 0"
    using that by (simp add: reduction_def assms(1,2) inf_signed_def)
  from off_tie exact at_tie ex75 ex57 zero show ?thesis
    unfolding Let_def t_def [symmetric] by blast
qed

theorem reduction_rounding_witness:
  "originalSize (compressed_photo\<lparr>compressedSize := Num 250000\<rparr>) = Num (of_nat 1000000)
   \<and> compressedSize (compressed_photo\<lparr>compressedSize := Num 250000\<rparr>) = Num (of_nat 250000)
   \<and> (1000000 :: nat) < 2 ^ 32 \<and> (250000 :: nat) < 2 ^ 32 \<and> (0 :: nat) < 1000000
   \<and> frac ((1 - of_nat 250000 / of_nat 1000000) * 100 :: rat) \<noteq> 1 / 2
   \<and> reduction (compressed_photo\<lparr>compressedSize := Num 250000\<rparr>) = Num 75
   \<and> originalSize (compressed_photo\<lparr>originalSize := Num 8, compressedSize := Num 7\<rparr>) = Num (of_nat 8)
   \<and> compressedSize (compressed_photo\<lparr>originalSize := Num 8, compressedSize := Num 7\<rparr>) = Num (of_nat 7)
   \<and> (8 :: nat) dvd 8 * 7
   \<and> frac ((1 - of_nat 7 / of_nat 8) * 100 :: rat) = 1 / 2
   \<and> reduction (compressed_photo\<lparr>originalSize := Num 8, compressedSize := Num 7\<rparr>) = Num 13
   \<and> originalSize tie_image = Num (of_nat 40000)
   \<and> compressedSize tie_image = Num (of_nat 17000)
   \<and> frac ((1 - of_nat 17000 / of_nat 40000) * 100 :: rat) = 1 / 2
   \<and> (reduction tie_image = Num 58 \<or> reduction tie_image = Num 57)
   \<and> reduction tie_image = Num 57
   \<and> originalSize (compressed_photo\<lparr>originalSize := Num 0\<rparr>) = Num (of_nat 0)
   \<and> compressedSize (compressed_photo\<lparr>originalSize := Num 0\<rparr>) = Num (of_nat 23)
   \<and> reduction (compressed_photo\<lparr>originalSize := Num 0\<rparr>) = NegInfinity"
proof -
  have a1: "originalSize (compressed_photo\<lparr>compressedSize := Num 250000\<rparr>) = Num (of_nat 1000000)"
    and a2: "compressedSize (compressed_photo\<lparr>compressedSize := Num 250000\<rparr>) = Num (of_nat 250000)"
    and a3: "(1000000 :: nat) < 2 ^ 32" and a4: "(250000 :: nat) < 2 ^ 32"
    and a5: "(0 :: nat) < 1000000"
    and a6: "frac ((1 - of_nat 250000 / of_nat 1000000) * 100 :: rat) \<noteq> 1 / 2"
    by (simp_all add: compressed_photo_def frac_def)
  have b1: "originalSize (compressed_photo\<lparr>originalSize := Num 8, compressedSize := Num 7\<rparr>) = Num (of_nat 8)"
    and b2: "compressedSize (compressed_photo\<lparr>originalSize := Num 8, compressedSize := Num 7\<rparr>) = Num (of_nat 7)"
    and b3: "(8 :: nat) < 2 ^ 32" and b4: "(7 :: nat) < 2 ^ 32"
    and b5: "(8 :: nat) dvd 8 * 7"
    and b6: "frac ((1 - of_nat 7 / of_nat 8) * 100 :: rat) = 1 / 2"
    by (simp_all add: compressed_photo_def frac_def floor_rat_numeral)
  have c1: "originalSize tie_image = Num (of_nat 40000)"
    and c2: "compressedSize tie_image = Num (of_nat 17000)"
    and c3: "(40000 :: nat) < 2 ^ 32" and c4: "(17000 :: nat) < 2 ^ 32"
    and c5: "frac ((1 - of_nat 17000 / of_nat 40000) * 100 :: rat) = 1 / 2"
    by (simp_all add: tie_image_def frac_def floor_rat_numeral)
  have d1: "originalSize (compressed_photo\<lparr>originalSize := Num 0\<rparr>) = Num (of_nat 0)"
    and d2: "compressedSize (compressed_photo\<lparr>originalSize := Num 0\<rparr>) = Num (of_nat 23)"
    and d3: "(0 :: nat) < 2 ^ 32" and d4: "(23 :: nat) < 2 ^ 32"
    by (simp_all add: compressed_photo_def)
  from reduction_rounding [OF a1 a2 a3 a4] a5 a6
  have "reduction (compressed_photo\<lparr>compressedSize := Num 250000\<rparr>)
        = Num (of_int (round ((1 - of_nat 250000 / of_nat 1000000) * 100 :: rat)))"
    unfolding Let_def by blast
  then have A: "reduction (compressed_photo\<lparr>compressedSize := Num 250000\<rparr>) = Num 75"
    by simp
  from reduction_rounding [OF b1 b2 b3 b4] b5
  have "reduction (compressed_photo\<lparr>originalSize := Num 8, compressedSize := Num 7\<rparr>)
        = Num (of_int (round ((1 - of_nat 7 / of_nat 8) * 100 :: rat)))"
    unfolding Let_def by simp
  then have B: "reduction (compressed_photo\<lparr>originalSize := Num 8, compressedSize := Num 7\<rparr>) = Num 13"
    by (simp add: round_def floor_rat_numeral)
  have c6: "(0 :: nat) < 40000" by simp
  from reduction_rounding [OF c1 c2 c3 c4] c5 c6
  have "reduction tie_image = Num (of_int (round ((1 - of_nat 17000 / of_nat 40000) * 100 :: rat)))
        \<or> reduction tie_image = Num (of_int (round ((1 - of_nat 17000 / of_nat 40000) * 100 :: rat) - 1))"
    unfolding Let_def by blast
  then have C: "reduction tie_image = Num 58 \<or> reduction tie_image = Num 57"
    by (simp add: round_def floor_rat_numeral)
  from reduction_rounding [OF c1 c2 c3 c4]
  have C57: "reduction tie_image = Num 57" by simp
  from reduction_rounding [OF d1 d2 d3 d4]
  have D: "reduction (compressed_photo\<lparr>originalSize := Num 0\<rparr>) = NegInfinity"
    by simp
  from a1 a2 a3 a4 a5 a6 A b1 b2 b5 b6 B c1 c2 c5 C C57 d1 d2 D show ?thesis by blast
qed

section \<open>The handlers\<close>

text \<open>
  Claim C8. For every successful compression of a file the \<^verbatim>\<open>originalSize\<close> of the
  result is the size of the file and its \<^verbatim>\<open>name\<close> the name of the file, the handler
  stores that result, and the download started from it has the name
  \<^verbatim>\<open>compressed-\<close> followed by the whole original name, extension included.
\<close>

theorem download_name:
  assumes "first_file ev = Some file" and "compressImage env file = Resolved r"
  shows "originalSize r = file_size file \<and> name r = file_name file \<and>
         handleFileChange env ev st = (Returned, st\<lparr>image := Some r, loading := False\<rparr>) \<and>
         downloads (handleDownload (snd (handleFileChange env ev st)))
           = downloads st @ [(compressedDataUrl r, ''compressed-'' @ file_name file)]"
proof -
  from compressImage_Resolved [OF assms(2)]
  have r: "originalSize r = file_size file" "name r = file_name file" by auto
  have h: "handleFileChange env ev st = (Returned, st\<lparr>image := Some r, loading := False\<rparr>)"
    using assms by (simp add: handleFileChange_def Let_def)
  show ?thesis using r by (simp add: h handleDownload_def Let_def)
qed

theorem download_name_witness:
  "first_file \<lparr>files = Some [photo]\<rparr> = Some photo
   \<and> compressImage example_platform photo = Resolved compressed_photo
   \<and> originalSize compressed_photo = Num 1000000
   \<and> name compressed_photo = ''photo.png''
   \<and> downloads (handleDownload (snd (handleFileChange example_platform \<lparr>files = Some [photo]\<rparr> initial_state)))
       = [(''data:image/jpeg;base64,/9j/2Q=='', ''compressed-photo.png'')]"
proof -
  have f: "first_file \<lparr>files = Some [photo]\<rparr> = Some photo" by (simp add: first_file_def)
  from download_name [OF f compressImage_example, of initial_state]
  have "downloads (handleDownload (snd (handleFileChange example_platform
            \<lparr>files = Some [photo]\<rparr> initial_state)))
        = downloads initial_state
          @ [(compressedDataUrl compressed_photo, ''compressed-'' @ file_name photo)]"
    by blast
  then have "downloads (handleDownload (snd (handleFileChange example_platform
            \<lparr>files = Some [photo]\<rparr> initial_state)))
        = [(''data:image/jpeg;base64,/9j/2Q=='', ''compressed-photo.png'')]"
    by (simp add: initial_state_def compressed_photo_def photo_def)
  moreover have "originalSize compressed_photo = Num 1000000"
    and "name compressed_photo = ''photo.png''"
    by (simp_all add: compressed_photo_def)
  ultimately show ?thesis using f compressImage_example by blast
qed

text \<open>
  Claim C9. When the selected file does not decode, the promise is never settled and
  the handler stays at its \<^verbatim>\<open>await\<close>: the result stored before is still there and
  nothing is logged, so the \<^verbatim>\<open>catch\<close> of the handler has not run. Only the
  \<^verbatim>\<open>loading\<close> flag has changed; it stays set.
\<close>

theorem decode_failure_pending:
  assumes "first_file ev = Some file"
    and "readAsDataURL env file = Some src" and "decode env src = None"
  shows "compressImage env file = Pending \<and>
         handleFileChange env ev st = (Suspended, st\<lparr>loading := True\<rparr>) \<and>
         image (snd (handleFileChange env ev st)) = image st \<and>
         console (snd (handleFileChange env ev st)) = console st"
proof -
  have p: "compressImage env file = Pending" using assms(2,3) by (simp add: compressImage_def)
  then have "handleFileChange env ev st = (Suspended, st\<lparr>loading := True\<rparr>)"
    using assms(1) by (simp add: handleFileChange_def Let_def)
  with p show ?thesis by simp
qed

theorem decode_failure_pending_witness:
  "first_file \<lparr>files = Some [not_an_image]\<rparr> = Some not_an_image
   \<and> readAsDataURL example_platform not_an_image = Some ''data:notes.txt''
   \<and> decode example_platform ''data:notes.txt'' = None
   \<and> compressImage example_platform not_an_image = Pending
   \<and> handleFileChange example_platform \<lparr>files = Some [not_an_image]\<rparr>
        \<lparr>image = Some compressed_photo, loading = False, console = [], body = [], downloads = []\<rparr>
      = (Suspended,
         \<lparr>image = Some compressed_photo, loading = True, console = [], body = [], downloads = []\<rparr>)"
proof -
  have f: "first_file \<lparr>files = Some [not_an_image]\<rparr> = Some not_an_image"
    by (simp add: first_file_def)
  have r: "readAsDataURL example_platform not_an_image = Some ''data:notes.txt''"
    by (simp add: example_platform_def not_an_image_def)
  have d: "decode example_platform ''data:notes.txt'' = None"
    by (simp add: example_platform_def)
  from decode_failure_pending [OF f r d] f r d show ?thesis by simp
qed

text \<open>
  Claim C10. If the event carries no file, the list of files being \<^verbatim>\<open>null\<close> or empty,
  the handler returns at once and leaves the state as it is, the stored result and the
  \<^verbatim>\<open>loading\<close> flag included.
\<close>

theorem no_file_no_change:
  assumes "files ev = None \<or> files ev = Some []"
  shows "handleFileChange env ev st = (Returned, st)"
  using assms by (auto simp: handleFileChange_def first_file_def)

theorem no_file_no_change_witness:
  "(files \<lparr>files = Some []\<rparr> = None \<or> files \<lparr>files = Some []\<rparr> = Some [])
   \<and> handleFileChange example_platform \<lparr>files = Some []\<rparr> initial_state = (Returned, initial_state)
   \<and> (files \<lparr>files = None\<rparr> = None \<or> files \<lparr>files = None\<rparr> = Some [])
   \<and> handleFileChange example_platform \<lparr>files = None\<rparr> initial_state = (Returned, initial_state)"
  using no_file_no_change [of "\<lparr>files = Some []\<rparr>" example_platform initial_state]
    no_file_no_change [of "\<lparr>files = None\<rparr>" example_platform initial_state]
  by simp

end
